theory Spec2Isabelle
  imports Complex_Main "HOL-Library.Multiset"
begin

section \<open>The chess-board BFS visualizer (bfs.py)\<close>

subsection \<open>Points, pieces and movement rules\<close>

text \<open>
  A \<open>Point\<close> is a pair of Python integers. Its \<open>__eq__\<close> reads \<open>other.x\<close> and
  \<open>other.y\<close>, so comparing a point with \<open>None\<close> raises \<open>AttributeError\<close>;
  \<open>shortest_path[0]\<close> on an empty list raises \<open>IndexError\<close>. \<open>ValueError\<close> and
  \<open>TypeError\<close> are raised in the diameter tool.
\<close>

datatype Point = Point (px: int) (py: int)

datatype PieceType = KNIGHT | KING | ROOK | BISHOP | QUEEN

datatype error = AttributeError | IndexError | ValueError | TypeError

text \<open>
  The outcome of a call: \<open>None\<close> when the call does not return, \<open>Some (Inl e)\<close> when it
  raises \<open>e\<close>, \<open>Some (Inr v)\<close> when it returns \<open>v\<close>.
\<close>

type_synonym 'a outcome = "(error + 'a) option"

definition BOARD_SIZE :: int where
  "BOARD_SIZE = 8"

definition SQUARE_SIZE :: int where
  "SQUARE_SIZE = 640 div BOARD_SIZE"

definition KNIGHT_MOVES :: "(int \<times> int) list" where
  "KNIGHT_MOVES = [(2, 1), (2, -1), (-2, 1), (-2, -1), (1, 2), (1, -2), (-1, 2), (-1, -2)]"

fun Point_eq :: "Point \<Rightarrow> Point option \<Rightarrow> error + bool" where
  "Point_eq p None = Inl AttributeError"
| "Point_eq p (Some q) = Inr (px p = px q \<and> py p = py q)"

definition is_on_board :: "Point \<Rightarrow> bool" where
  "is_on_board p \<longleftrightarrow> 0 \<le> px p \<and> px p < BOARD_SIZE \<and> 0 \<le> py p \<and> py p < BOARD_SIZE"

definition get_knight_moves :: "Point \<Rightarrow> Point list" where
  "get_knight_moves p =
     filter is_on_board (map (\<lambda>(dx, dy). Point (px p + dx) (py p + dy)) KNIGHT_MOVES)"

definition get_king_moves :: "Point \<Rightarrow> Point list" where
  "get_king_moves p =
     concat (map (\<lambda>dx. concat (map (\<lambda>dy.
       if dx = 0 \<and> dy = 0 then []
       else if is_on_board (Point (px p + dx) (py p + dy)) then [Point (px p + dx) (py p + dy)]
       else []) [-1, 0, 1])) [-1, 0, 1])"

text \<open>
  The inner \<open>while\<close> loop of \<open>sliding_moves\<close> walks one ray; it does not return for the
  direction \<open>(0, 0)\<close> from a square of the board.
\<close>

partial_function (option) ray :: "int \<Rightarrow> int \<Rightarrow> int \<Rightarrow> int \<Rightarrow> Point list \<Rightarrow> Point list option" where
  "ray nx ny dx dy neighbors =
     (if is_on_board (Point nx ny)
      then ray (nx + dx) (ny + dy) dx dy (neighbors @ [Point nx ny])
      else Some neighbors)"

declare ray.simps [code]

fun sliding_loop :: "Point \<Rightarrow> (int \<times> int) list \<Rightarrow> Point list \<Rightarrow> Point list option" where
  "sliding_loop p [] neighbors = Some neighbors"
| "sliding_loop p ((dx, dy) # dirs) neighbors =
     (case ray (px p + dx) (py p + dy) dx dy neighbors of
        None \<Rightarrow> None
      | Some neighbors' \<Rightarrow> sliding_loop p dirs neighbors')"

definition sliding_moves :: "Point \<Rightarrow> (int \<times> int) list \<Rightarrow> Point list option" where
  "sliding_moves p dirs = sliding_loop p dirs []"

definition get_rook_moves :: "Point \<Rightarrow> Point list option" where
  "get_rook_moves p = sliding_moves p [(1, 0), (-1, 0), (0, 1), (0, -1)]"

definition get_bishop_moves :: "Point \<Rightarrow> Point list option" where
  "get_bishop_moves p = sliding_moves p [(1, 1), (1, -1), (-1, 1), (-1, -1)]"

definition get_queen_moves :: "Point \<Rightarrow> Point list option" where
  "get_queen_moves p =
     sliding_moves p [(1, 0), (-1, 0), (0, 1), (0, -1), (1, 1), (1, -1), (-1, 1), (-1, -1)]"

fun MOVE_FUNCTIONS :: "PieceType \<Rightarrow> Point \<Rightarrow> Point list option" where
  "MOVE_FUNCTIONS KNIGHT p = Some (get_knight_moves p)"
| "MOVE_FUNCTIONS KING p = Some (get_king_moves p)"
| "MOVE_FUNCTIONS ROOK p = get_rook_moves p"
| "MOVE_FUNCTIONS BISHOP p = get_bishop_moves p"
| "MOVE_FUNCTIONS QUEEN p = get_queen_moves p"

subsection \<open>The visualizer's state\<close>

text \<open>
  The fields of \<open>BFSVisualizer\<close> that its search methods read or write. The screen, clock
  and font are rendering handles. \<open>visited\<close> is a Python set and \<open>parents\<close> a dict whose
  values are a point or \<open>None\<close> (the start's parent). \<open>render_pos\<close> holds the integers
  that \<open>get_square_coords\<close> returns.
\<close>

record BFSVisualizer =
  start_pos :: "Point option"
  goal_pos :: "Point option"
  current_piece :: PieceType
  running_bfs :: bool
  path_found :: bool
  animating_path :: bool
  queue :: "Point list"
  visited :: "Point set"
  parents :: "Point \<rightharpoonup> Point option"
  edges_explored :: "(Point \<times> Point) list"
  current_node :: "Point option"
  last_bfs_step_time :: real
  shortest_path :: "Point list"
  anim_index :: int
  anim_progress :: real
  render_pos :: "int \<times> int"

definition get_square_coords :: "Point \<Rightarrow> int \<times> int" where
  "get_square_coords p = (px p * SQUARE_SIZE, py p * SQUARE_SIZE)"

text \<open>\<open>start_bfs\<close>; the argument \<open>now\<close> is the value \<open>time.time()\<close> returns.\<close>

definition start_bfs :: "real \<Rightarrow> BFSVisualizer \<Rightarrow> BFSVisualizer" where
  "start_bfs now s =
     (case start_pos s of
        None \<Rightarrow> s
      | Some st \<Rightarrow>
          (case goal_pos s of
             None \<Rightarrow> s
           | Some g \<Rightarrow>
               if running_bfs s then s
               else s\<lparr>queue := [st], visited := {st}, parents := [st \<mapsto> None],
                      edges_explored := [], shortest_path := [], path_found := False,
                      animating_path := False, current_node := None, running_bfs := True,
                      last_bfs_step_time := now\<rparr>))"

text \<open>\<open>dict.get\<close>: the stored value, or \<open>None\<close> for a missing key.\<close>

definition dict_get :: "(Point \<rightharpoonup> Point option) \<Rightarrow> Point \<Rightarrow> Point option" where
  "dict_get d k = (case d k of None \<Rightarrow> None | Some v \<Rightarrow> v)"

text \<open>The \<open>while curr is not None\<close> loop of \<open>reconstruct_path\<close>.\<close>

partial_function (option) reconstruct_loop ::
  "(Point \<rightharpoonup> Point option) \<Rightarrow> Point option \<Rightarrow> Point option \<Rightarrow> Point list \<Rightarrow> (error + Point list) option"
where
  "reconstruct_loop par start cur temp_path =
     (case cur of
        None \<Rightarrow> Some (Inr temp_path)
      | Some c \<Rightarrow>
          (case Point_eq c start of
             Inl e \<Rightarrow> Some (Inl e)
           | Inr b \<Rightarrow>
               if b then Some (Inr (temp_path @ [c]))
               else reconstruct_loop par start (dict_get par c) (temp_path @ [c])))"

declare reconstruct_loop.simps [code]

definition reconstruct_path :: "BFSVisualizer \<Rightarrow> BFSVisualizer outcome" where
  "reconstruct_path s =
     (case reconstruct_loop (parents s) (start_pos s) (goal_pos s) [] of
        None \<Rightarrow> None
      | Some (Inl e) \<Rightarrow> Some (Inl e)
      | Some (Inr temp_path) \<Rightarrow> Some (Inr (s\<lparr>shortest_path := rev temp_path\<rparr>)))"

text \<open>The body of the \<open>for neighbor in neighbors\<close> loop of \<open>step_bfs\<close>.\<close>

definition visit :: "Point \<Rightarrow> Point \<Rightarrow> BFSVisualizer \<Rightarrow> BFSVisualizer" where
  "visit current neighbor s =
     (if neighbor \<notin> visited s
      then s\<lparr>visited := insert neighbor (visited s),
             parents := (parents s)(neighbor \<mapsto> Some current),
             queue := queue s @ [neighbor],
             edges_explored := edges_explored s @ [(current, neighbor)]\<rparr>
      else s)"

definition found_goal :: "BFSVisualizer \<Rightarrow> BFSVisualizer outcome" where
  "found_goal s =
     (case reconstruct_path s of
        None \<Rightarrow> None
      | Some (Inl e) \<Rightarrow> Some (Inl e)
      | Some (Inr s') \<Rightarrow>
          (case shortest_path s' of
             [] \<Rightarrow> Some (Inl IndexError)
           | p # ps \<Rightarrow>
               Some (Inr (s'\<lparr>running_bfs := False, path_found := True, animating_path := True,
                             anim_index := 0, anim_progress := 0,
                             render_pos := get_square_coords p\<rparr>))))"

definition step_bfs :: "BFSVisualizer \<Rightarrow> BFSVisualizer outcome" where
  "step_bfs s =
     (case queue s of
        [] \<Rightarrow> Some (Inr (s\<lparr>running_bfs := False\<rparr>))
      | current # rest \<Rightarrow>
          (case Point_eq current (goal_pos s) of
             Inl e \<Rightarrow> Some (Inl e)
           | Inr b \<Rightarrow>
               if b then found_goal (s\<lparr>queue := rest, current_node := Some current\<rparr>)
               else
                 (case MOVE_FUNCTIONS (current_piece s) current of
                    None \<Rightarrow> None
                  | Some neighbors \<Rightarrow>
                      Some (Inr (fold (visit current) neighbors
                                   (s\<lparr>queue := rest, current_node := Some current\<rparr>))))))"

text \<open>\<open>reset_state\<close>, and the state \<open>__init__\<close> leaves (knight selected, clock at 0).\<close>

definition reset_state :: "BFSVisualizer \<Rightarrow> BFSVisualizer" where
  "reset_state s =
     s\<lparr>start_pos := None, goal_pos := None, running_bfs := False, path_found := False,
       animating_path := False, queue := [], visited := {}, parents := Map.empty,
       edges_explored := [], shortest_path := [], anim_index := 0, anim_progress := 0,
       current_node := None, render_pos := (- SQUARE_SIZE, - SQUARE_SIZE)\<rparr>"

definition new_visualizer :: BFSVisualizer where
  "new_visualizer =
     \<lparr>start_pos = None, goal_pos = None, current_piece = KNIGHT, running_bfs = False,
      path_found = False, animating_path = False, queue = [], visited = {},
      parents = Map.empty, edges_explored = [], current_node = None,
      last_bfs_step_time = 0, shortest_path = [], anim_index = 0, anim_progress = 0,
      render_pos = (- SQUARE_SIZE, - SQUARE_SIZE)\<rparr>"

text \<open>
  \<open>handle_mouse_click\<close>: the first click on the board sets the start square, the second
  (on another square) the goal.
\<close>

definition handle_mouse_click :: "int \<times> int \<Rightarrow> BFSVisualizer \<Rightarrow> BFSVisualizer" where
  "handle_mouse_click pos s =
     (let p = Point (fst pos div SQUARE_SIZE) (snd pos div SQUARE_SIZE) in
      if \<not> is_on_board p then s
      else if path_found s \<or> animating_path s then reset_state s
      else if start_pos s = None then s\<lparr>start_pos := Some p, render_pos := get_square_coords p\<rparr>
      else if goal_pos s = None \<and> start_pos s \<noteq> Some p then s\<lparr>goal_pos := Some p\<rparr>
      else if \<not> running_bfs s then reset_state s
      else s)"

text \<open>
  The main loop calls \<open>step_bfs\<close> only while \<open>running_bfs\<close> is set; \<open>run_bfs n\<close> is
  what at most \<open>n\<close> such calls do.
\<close>

fun run_bfs :: "nat \<Rightarrow> BFSVisualizer \<Rightarrow> BFSVisualizer outcome" where
  "run_bfs 0 s = Some (Inr s)"
| "run_bfs (Suc n) s =
     (if running_bfs s
      then (case step_bfs s of
              None \<Rightarrow> None
            | Some (Inl e) \<Rightarrow> Some (Inl e)
            | Some (Inr s') \<Rightarrow> run_bfs n s')
      else Some (Inr s))"

section \<open>The diameter tool (\<^verbatim>\<open>tree_diameter.py\<close>)\<close>

subsection \<open>Nodes, edges and the module's state\<close>

text \<open>
  \<open>Node\<close> and \<open>Edge\<close> define no \<open>__eq__\<close>: they are compared by identity. A node
  is its address in a heap of node objects and \<open>Neighbours\<close> is a list of addresses. An
  edge is the pair of its end points: removing the first entry with the same end points
  leaves the same list of end points as removing the edge object itself.
\<close>

record Node =
  pos :: "int \<times> int"
  Visited :: bool
  Neighbours :: "nat list"
  Distance :: int

datatype Edge = Edge (edge_start: nat) (edge_end: nat)

text \<open>\<open>other_end\<close> returns a node, or \<open>False\<close> (here \<open>None\<close>); a node is truthy.\<close>

definition other_end :: "Edge \<Rightarrow> nat \<Rightarrow> nat option" where
  "other_end e node =
     (if node = edge_end e then Some (edge_start e)
      else if node = edge_start e then Some (edge_end e)
      else None)"

text \<open>
  Lines 45 and 46 bind the module's names \<open>nodes\<close> and \<open>edges\<close> to the object
  \<open>typing.List[Node]\<close>, not to a list, and no statement binds them again. \<open>ListAlias\<close>
  is that object; \<open>PyList\<close> is a Python list, which the parameter of \<open>reset_nodes\<close> can
  be as well. Iterating the alias yields one object, the unpacked alias, and reading or
  setting an attribute of it raises \<open>AttributeError\<close> (Python 3.11 and later; an earlier
  interpreter raises \<open>TypeError\<close> at the iteration). \<open>append\<close>, \<open>copy\<close> and \<open>remove\<close> of
  the alias are the unbound methods of \<open>list\<close> and raise \<open>TypeError\<close>. An exception
  leaves \<open>main\<close>, so the state behind it is not kept.
\<close>

datatype 'a listobj = ListAlias | PyList "'a list"

text \<open>
  The module's state: the heap of node objects, the objects that \<open>nodes\<close> and \<open>edges\<close>
  name, and the other globals. \<open>allocated\<close> is the number of \<open>Node\<close> objects made so
  far; the next one gets it as its address.
\<close>

record world =
  heap :: "nat \<Rightarrow> Node"
  nodes :: "nat listobj"
  edges :: "Edge listobj"
  selected_node :: "nat option"
  long_start :: "nat option"
  long_end :: "nat option"
  allocated :: nat

definition reset_node :: "nat \<Rightarrow> (nat \<Rightarrow> Node) \<Rightarrow> (nat \<Rightarrow> Node)" where
  "reset_node node h = h(node := (h node)\<lparr>Visited := False, Distance := 0\<rparr>)"

text \<open>\<open>reset_nodes\<close>, applied to the object its parameter is bound to.\<close>

fun reset_nodes :: "nat listobj \<Rightarrow> (nat \<Rightarrow> Node) \<Rightarrow> error + (nat \<Rightarrow> Node)" where
  "reset_nodes ListAlias h = Inl AttributeError"
| "reset_nodes (PyList ns) h = Inr (fold reset_node ns h)"

subsection \<open>Breadth-first search and the double pass\<close>

text \<open>
  The body of \<open>for node in corrent_node.Neighbours\<close>: the neighbour is appended to the
  queue whatever its flags; \<open>far_node.Distance\<close> is read from the heap after the
  assignment to \<open>node.Distance\<close>.
\<close>

fun visit_neighbour :: "nat \<Rightarrow> nat \<Rightarrow> nat \<Rightarrow> (nat \<Rightarrow> Node) \<times> nat list \<times> nat \<Rightarrow> (nat \<Rightarrow> Node) \<times> nat list \<times> nat" where
  "visit_neighbour start corrent_node node (h, qeue, far_node) =
     (if Distance (h node) = 0 \<and> node \<noteq> start
      then (h(node := (h node)\<lparr>Distance := Distance (h corrent_node) + 1\<rparr>),
            qeue @ [node],
            if Distance ((h(node := (h node)\<lparr>Distance := Distance (h corrent_node) + 1\<rparr>)) node)
               > Distance ((h(node := (h node)\<lparr>Distance := Distance (h corrent_node) + 1\<rparr>)) far_node)
            then node else far_node)
      else (h, qeue @ [node], far_node))"

text \<open>
  One iteration of \<open>while(qeue)\<close> with \<open>corrent_node\<close> the head of the queue and
  \<open>rest\<close> what follows it. The callback \<open>draw\<close> is the caller's; it and the sleep
  leave the state alone.
\<close>

definition bfs_body :: "nat \<Rightarrow> world \<Rightarrow> nat \<Rightarrow> nat list \<Rightarrow> nat \<Rightarrow> world \<times> nat list \<times> nat" where
  "bfs_body start w corrent_node rest far_node =
     (if Visited (heap w corrent_node) then (w, rest, far_node)
      else
        (case fold (visit_neighbour start corrent_node) (Neighbours (heap w corrent_node))
                (heap w, corrent_node # rest, far_node) of
           (h, qeue, far_node') \<Rightarrow>
             (w\<lparr>heap := h(corrent_node := (h corrent_node)\<lparr>Visited := True\<rparr>),
                selected_node := Some corrent_node\<rparr>,
              tl qeue, far_node')))"

partial_function (option) bfs_loop :: "nat \<Rightarrow> world \<Rightarrow> nat list \<Rightarrow> nat \<Rightarrow> (world \<times> nat) option" where
  "bfs_loop start w qeue far_node =
     (case qeue of
        [] \<Rightarrow> Some (w, far_node)
      | corrent_node # rest \<Rightarrow>
          (case bfs_body start w corrent_node rest far_node of
             (w', qeue', far_node') \<Rightarrow> bfs_loop start w' qeue' far_node'))"

declare bfs_loop.simps [code]

definition bfs :: "world \<Rightarrow> nat \<Rightarrow> (world \<times> nat) option" where
  "bfs w start = bfs_loop start w [start] start"

text \<open>The state after at most \<open>n\<close> iterations of the loop of \<open>bfs\<close>.\<close>

fun bfs_iterations :: "nat \<Rightarrow> nat \<Rightarrow> world \<Rightarrow> nat list \<Rightarrow> nat \<Rightarrow> world \<times> nat list \<times> nat" where
  "bfs_iterations 0 start w qeue far_node = (w, qeue, far_node)"
| "bfs_iterations (Suc n) start w qeue far_node =
     (case qeue of
        [] \<Rightarrow> (w, qeue, far_node)
      | corrent_node # rest \<Rightarrow>
          (case bfs_body start w corrent_node rest far_node of
             (w', qeue', far_node') \<Rightarrow> bfs_iterations n start w' qeue' far_node'))"

text \<open>
  \<open>find_diameter\<close> resets the flags through the module's \<open>nodes\<close> before each pass and
  hands its callback on to \<open>bfs\<close>.
\<close>

definition find_diameter :: "world \<Rightarrow> nat \<Rightarrow> (world \<times> nat \<times> nat) outcome" where
  "find_diameter w sel =
     (case reset_nodes (nodes w) (heap w) of
        Inl e \<Rightarrow> Some (Inl e)
      | Inr h \<Rightarrow>
          (case bfs (w\<lparr>heap := h\<rparr>) sel of
             None \<Rightarrow> None
           | Some (w1, start) \<Rightarrow>
               (case reset_nodes (nodes w1) (heap w1) of
                  Inl e \<Rightarrow> Some (Inl e)
                | Inr h1 \<Rightarrow>
                    (case bfs (w1\<lparr>heap := h1\<rparr>) start of
                       None \<Rightarrow> None
                     | Some (w2, end_node) \<Rightarrow> Some (Inr (w2, start, end_node))))))"

subsection \<open>Drawing and editing\<close>

text \<open>
  \<open>draw\<close> iterates \<open>edges\<close> and reads \<open>edge.start\<close>, then iterates \<open>nodes\<close> and reads
  \<open>node.pos\<close>; the calls into the graphics library leave the state alone.
\<close>

definition draw :: "world \<Rightarrow> error + unit" where
  "draw w =
     (case edges w of
        ListAlias \<Rightarrow> Inl AttributeError
      | PyList es \<Rightarrow> (case nodes w of ListAlias \<Rightarrow> Inl AttributeError | PyList ns \<Rightarrow> Inr ()))"

definition NODE_RADIUS :: int where
  "NODE_RADIUS = 15"

text \<open>
  \<open>get_node_at_pos\<close>: the first node of \<open>nodes\<close> within the radius of the position. The
  positions are pixel coordinates, for which \<open>hypot(dx, dy) <= NODE_RADIUS\<close> is the
  comparison of the squares.
\<close>

definition get_node_at_pos :: "world \<Rightarrow> int \<times> int \<Rightarrow> error + nat option" where
  "get_node_at_pos w p =
     (case nodes w of
        ListAlias \<Rightarrow> Inl AttributeError
      | PyList ns \<Rightarrow>
          Inr (find (\<lambda>node. (fst (pos (heap w node)) - fst p)\<^sup>2 + (snd (pos (heap w node)) - snd p)\<^sup>2
                              \<le> NODE_RADIUS\<^sup>2) ns))"

definition Node_init :: "int \<times> int \<Rightarrow> Node" where
  "Node_init p = \<lparr>pos = p, Visited = False, Neighbours = [], Distance = 0\<rparr>"

text \<open>A left click: a node is added unless the position is on a node.\<close>

definition left_click :: "int \<times> int \<Rightarrow> world \<Rightarrow> error + world" where
  "left_click p w =
     (case get_node_at_pos w p of
        Inl e \<Rightarrow> Inl e
      | Inr (Some node) \<Rightarrow> Inr w
      | Inr None \<Rightarrow>
          (case nodes w of
             ListAlias \<Rightarrow> Inl TypeError
           | PyList ns \<Rightarrow>
               Inr (w\<lparr>heap := (heap w)(allocated w := Node_init p),
                      nodes := PyList (ns @ [allocated w]),
                      allocated := Suc (allocated w)\<rparr>)))"

text \<open>
  A right click on a node: the first one selects it, the second one connects the selected
  node to the clicked one unless they are already neighbours or the same node. The two
  \<open>Neighbours\<close> lists are appended to before \<open>edges.append\<close> is called.
\<close>

definition connect :: "nat \<Rightarrow> nat \<Rightarrow> world \<Rightarrow> error + world" where
  "connect sel clicked w =
     (case edges w of
        ListAlias \<Rightarrow> Inl TypeError
      | PyList es \<Rightarrow>
          Inr (w\<lparr>heap := (heap w)
                   (sel := (heap w sel)\<lparr>Neighbours := Neighbours (heap w sel) @ [clicked]\<rparr>,
                    clicked := (heap w clicked)\<lparr>Neighbours := Neighbours (heap w clicked) @ [sel]\<rparr>),
                 edges := PyList (es @ [Edge sel clicked])\<rparr>))"

definition right_click :: "nat \<Rightarrow> world \<Rightarrow> error + world" where
  "right_click clicked w =
     (case selected_node w of
        None \<Rightarrow> Inr (w\<lparr>selected_node := Some clicked\<rparr>)
      | Some sel \<Rightarrow>
          (case (if clicked \<notin> set (Neighbours (heap w sel))
                 then (if sel \<noteq> clicked then connect sel clicked w else Inr w)
                 else Inr w) of
             Inl e \<Rightarrow> Inl e
           | Inr w' \<Rightarrow> Inr (w'\<lparr>selected_node := None\<rparr>)))"

definition right_click_at :: "int \<times> int \<Rightarrow> world \<Rightarrow> error + world" where
  "right_click_at p w =
     (case get_node_at_pos w p of
        Inl e \<Rightarrow> Inl e
      | Inr None \<Rightarrow> Inr w
      | Inr (Some clicked) \<Rightarrow> right_click clicked w)"

text \<open>
  The delete key, with a node selected: every edge of \<open>edges.copy()\<close> that touches the
  node is removed from \<open>edges\<close>, then the node is removed from \<open>nodes\<close> (\<open>list.remove\<close>
  raises \<open>ValueError\<close> for an absent element). No statement of the branch reads or writes
  a \<open>Neighbours\<close> list.
\<close>

definition drop_edge :: "nat \<Rightarrow> Edge \<Rightarrow> Edge list \<Rightarrow> Edge list" where
  "drop_edge sel edge es = (if other_end edge sel \<noteq> None then remove1 edge es else es)"

definition delete_key :: "world \<Rightarrow> error + world" where
  "delete_key w =
     (case selected_node w of
        None \<Rightarrow> Inr w
      | Some sel \<Rightarrow>
          (case edges w of
             ListAlias \<Rightarrow> Inl TypeError
           | PyList es \<Rightarrow>
               (case nodes w of
                  ListAlias \<Rightarrow> Inl TypeError
                | PyList ns \<Rightarrow>
                    if sel \<in> set ns
                    then Inr (w\<lparr>edges := PyList (fold (drop_edge sel) es es),
                                nodes := PyList (remove1 sel ns),
                                selected_node := None\<rparr>)
                    else Inl ValueError)))"

text \<open>The key r, and the space key with a node selected.\<close>

definition r_key :: "world \<Rightarrow> error + world" where
  "r_key w =
     (case reset_nodes (nodes w) (heap w) of
        Inl e \<Rightarrow> Inl e
      | Inr h \<Rightarrow> Inr (w\<lparr>long_end := None, long_start := None, heap := h\<rparr>))"

definition space_key :: "world \<Rightarrow> world outcome" where
  "space_key w =
     (case selected_node w of
        None \<Rightarrow> Some (Inr w)
      | Some sel \<Rightarrow>
          (case find_diameter w sel of
             None \<Rightarrow> None
           | Some (Inl e) \<Rightarrow> Some (Inl e)
           | Some (Inr (w', a, b)) \<Rightarrow>
               Some (Inr (w'\<lparr>long_start := Some a, long_end := Some b, selected_node := None\<rparr>))))"

subsection \<open>The main loop\<close>

text \<open>
  The events \<open>main\<close> tells apart. Each pass of its loop calls \<open>draw\<close> and then handles
  the events that have arrived, so its input is a list of such batches; after a \<open>QUIT\<close>
  the rest of the batch is still handled and the loop ends. \<open>main\<close> starts from the state
  the module's top level leaves.
\<close>

datatype event =
  QUIT | LEFT_DOWN "int \<times> int" | RIGHT_DOWN "int \<times> int" | DELETE_DOWN | R_DOWN | SPACE_DOWN
  | OTHER_EVENT

fun handle_event :: "event \<Rightarrow> world \<Rightarrow> world outcome" where
  "handle_event QUIT w = Some (Inr w)"
| "handle_event (LEFT_DOWN p) w = Some (left_click p w)"
| "handle_event (RIGHT_DOWN p) w = Some (right_click_at p w)"
| "handle_event DELETE_DOWN w = Some (delete_key w)"
| "handle_event R_DOWN w = Some (r_key w)"
| "handle_event SPACE_DOWN w = space_key w"
| "handle_event OTHER_EVENT w = Some (Inr w)"

fun handle_events :: "event list \<Rightarrow> world \<Rightarrow> world outcome" where
  "handle_events [] w = Some (Inr w)"
| "handle_events (ev # evs) w =
     (case handle_event ev w of
        None \<Rightarrow> None
      | Some (Inl e) \<Rightarrow> Some (Inl e)
      | Some (Inr w') \<Rightarrow> handle_events evs w')"

fun main_loop :: "event list list \<Rightarrow> world \<Rightarrow> world outcome" where
  "main_loop [] w = Some (Inr w)"
| "main_loop (evs # batches) w =
     (case draw w of
        Inl e \<Rightarrow> Some (Inl e)
      | Inr u \<Rightarrow>
          (case handle_events evs w of
             None \<Rightarrow> None
           | Some (Inl e) \<Rightarrow> Some (Inl e)
           | Some (Inr w') \<Rightarrow> if QUIT \<in> set evs then Some (Inr w') else main_loop batches w'))"

definition module_start :: world where
  "module_start =
     \<lparr>heap = (\<lambda>n. Node_init (0, 0)), nodes = ListAlias, edges = ListAlias,
      selected_node = None, long_start = None, long_end = None, allocated = 0\<rparr>"

definition main :: "event list list \<Rightarrow> world outcome" where
  "main batches = main_loop batches module_start"

text \<open>The state \<open>main\<close> would start from, were \<open>nodes\<close> and \<open>edges\<close> bound to empty lists.\<close>

definition lists_start :: world where
  "lists_start = module_start\<lparr>nodes := PyList [], edges := PyList []\<rparr>"

subsection \<open>Small graphs\<close>

text \<open>
  Node objects wired by hand, as a caller of \<open>bfs\<close> or \<open>find_diameter\<close> can make them:
  node \<open>n\<close> is new but for its neighbour list \<open>adj ! n\<close>, and the module's names are bound
  as lines 45 and 46 bind them.
\<close>

definition wired :: "nat list list \<Rightarrow> world" where
  "wired adj =
     \<lparr>heap = (\<lambda>n. (Node_init (100 * int n, 100))
                     \<lparr>Neighbours := if n < length adj then adj ! n else []\<rparr>),
      nodes = ListAlias, edges = ListAlias, selected_node = None, long_start = None,
      long_end = None, allocated = length adj\<rparr>"

definition pair_graph :: world where
  "pair_graph = wired [[1], [0]]"

definition path_graph :: world where
  "path_graph = wired [[1], [0, 2], [1]]"

definition star_graph :: world where
  "star_graph = wired [[1, 2, 3, 4], [0], [0], [0], [0]]"

text \<open>
  A star: the centre \<open>c\<close> lists the leaves \<open>l1\<close> to \<open>l4\<close> in this order and each leaf
  lists \<open>c\<close> alone. In \<open>star_shape\<close> the module's \<open>nodes\<close> is a list \<open>ns\<close> of these five
  nodes; \<open>star_ready\<close> is the heap of a star whose nodes have been reset.
\<close>

definition star_shape :: "world \<Rightarrow> nat \<Rightarrow> nat \<Rightarrow> nat \<Rightarrow> nat \<Rightarrow> nat \<Rightarrow> nat list \<Rightarrow> bool" where
  "star_shape w c l1 l2 l3 l4 ns \<longleftrightarrow>
     distinct [c, l1, l2, l3, l4] \<and> Neighbours (heap w c) = [l1, l2, l3, l4] \<and>
     (\<forall>l \<in> {l1, l2, l3, l4}. Neighbours (heap w l) = [c]) \<and>
     nodes w = PyList ns \<and> set ns = {c, l1, l2, l3, l4}"

definition star_ready :: "(nat \<Rightarrow> Node) \<Rightarrow> nat \<Rightarrow> nat \<Rightarrow> nat \<Rightarrow> nat \<Rightarrow> nat \<Rightarrow> bool" where
  "star_ready h c l1 l2 l3 l4 \<longleftrightarrow>
     distinct [c, l1, l2, l3, l4] \<and> Neighbours (h c) = [l1, l2, l3, l4] \<and>
     Neighbours (h l1) = [c] \<and> Neighbours (h l2) = [c] \<and> Neighbours (h l3) = [c] \<and>
     Neighbours (h l4) = [c] \<and>
     (\<forall>n \<in> {c, l1, l2, l3, l4}. \<not> Visited (h n) \<and> Distance (h n) = 0)"

section \<open>Runs of the board search\<close>

text \<open>
  The states of a search: the one \<open>start_bfs\<close> builds from a state with both squares
  set, and every state a call of \<open>step_bfs\<close> returns from there while the search runs.
\<close>

inductive reachable :: "BFSVisualizer \<Rightarrow> bool" where
  started: "start_pos s = Some st \<Longrightarrow> goal_pos s = Some g \<Longrightarrow> \<not> running_bfs s
              \<Longrightarrow> reachable (start_bfs now s)"
| stepped: "reachable s \<Longrightarrow> running_bfs s \<Longrightarrow> step_bfs s = Some (Inr s') \<Longrightarrow> reachable s'"

text \<open>\<open>climbs par st v\<close>: the parent links lead from \<open>v\<close> to the start square.\<close>

inductive climbs :: "(Point \<rightharpoonup> Point option) \<Rightarrow> Point \<Rightarrow> Point \<Rightarrow> bool" for par st where
  root: "climbs par st st"
| up: "par v = Some (Some p) \<Longrightarrow> climbs par st p \<Longrightarrow> climbs par st v"

definition run_inv :: "BFSVisualizer \<Rightarrow> bool" where
  "run_inv s \<longleftrightarrow>
     (\<exists>st. start_pos s = Some st \<and> (\<forall>v \<in> visited s. climbs (parents s) st v)) \<and>
     distinct (queue s) \<and> set (queue s) \<subseteq> visited s \<and> dom (parents s) = visited s"

text \<open>The board after a click on the corner square and one at the pixel \<open>g\<close>.\<close>

definition two_clicks :: "PieceType \<Rightarrow> int \<times> int \<Rightarrow> BFSVisualizer" where
  "two_clicks piece g =
     handle_mouse_click g (handle_mouse_click (0, 0) (new_visualizer\<lparr>current_piece := piece\<rparr>))"

text \<open>
  The state \<open>n\<close> calls of \<open>step_bfs\<close> later (the state itself when a call raised or did
  not return).
\<close>

definition after :: "nat \<Rightarrow> BFSVisualizer \<Rightarrow> BFSVisualizer" where
  "after n s = (case run_bfs n s of Some (Inr s') \<Rightarrow> s' | _ \<Rightarrow> s)"

section \<open>Invariants of the board search\<close>

lemma Point_eq_Some: "Point_eq p (Some q) = Inr (p = q)"
  by (cases p; cases q) simp

lemma Point_eq_None: "Point_eq p None = Inl AttributeError"
  by simp

declare Point_eq.simps [simp del]

declare Point_eq_Some [simp] Point_eq_None [simp]

lemma climbs_upd:
  "climbs par st v \<Longrightarrow> par n = None \<Longrightarrow> climbs (par(n \<mapsto> x)) st v"
proof (induction rule: climbs.induct)
  case root
  show ?case by (rule climbs.root)
next
  case (up v p)
  then have "v \<noteq> n" by auto
  with up show ?case by (auto intro: climbs.up)
qed

lemma reconstruct_loop_climbs:
  "climbs par st v \<Longrightarrow>
   \<exists>path. reconstruct_loop par (Some st) (Some v) acc = Some (Inr (acc @ v # path))"
proof (induction arbitrary: acc rule: climbs.induct)
  case root
  show ?case by (subst reconstruct_loop.simps) simp
next
  case (up v p)
  show ?case
  proof (cases "v = st")
    case True
    then show ?thesis by (subst reconstruct_loop.simps) simp
  next
    case False
    from up.IH [of "acc @ [v]"] obtain path where
      "reconstruct_loop par (Some st) (Some p) (acc @ [v]) = Some (Inr ((acc @ [v]) @ p # path))"
      by blast
    with False up.hyps show ?thesis
      by (subst reconstruct_loop.simps) (simp add: dict_get_def)
  qed
qed

lemma visit_inv:
  assumes "run_inv s" and "c \<in> visited s"
  shows "run_inv (visit c n s) \<and> c \<in> visited (visit c n s)"
proof (cases "n \<in> visited s")
  case True
  with assms show ?thesis by (simp add: visit_def)
next
  case False
  from assms(1) obtain st where st: "start_pos s = Some st"
    and cl: "\<forall>v \<in> visited s. climbs (parents s) st v"
    and dq: "distinct (queue s)" and qv: "set (queue s) \<subseteq> visited s"
    and dm: "dom (parents s) = visited s"
    unfolding run_inv_def by blast
  from False dm have none: "parents s n = None" by (auto simp: domIff)
  let ?par = "(parents s)(n \<mapsto> Some c)"
  have old: "climbs ?par st v" if "v \<in> visited s" for v
    using cl that none by (auto intro: climbs_upd)
  have new: "climbs ?par st n"
    by (rule climbs.up [where p = c]) (simp_all add: old assms(2))
  have "\<forall>v \<in> insert n (visited s). climbs ?par st v"
    using old new by auto
  moreover have "distinct (queue s @ [n])" using dq qv False by auto
  moreover have "set (queue s @ [n]) \<subseteq> insert n (visited s)" using qv by auto
  moreover have "dom ?par = insert n (visited s)" using dm by auto
  ultimately show ?thesis
    using False st assms(2) by (simp add: visit_def run_inv_def)
qed

lemma fold_visit_inv:
  "run_inv s \<Longrightarrow> c \<in> visited s \<Longrightarrow> run_inv (fold (visit c) ns s)"
  by (induction ns arbitrary: s) (auto dest: visit_inv)


lemma start_bfs_inv:
  "start_pos s = Some st \<Longrightarrow> goal_pos s = Some g \<Longrightarrow> \<not> running_bfs s \<Longrightarrow> run_inv (start_bfs now s)"
  by (auto simp: start_bfs_def run_inv_def intro: climbs.root)

lemma reconstruct_path_inv:
  assumes "run_inv s" and "goal_pos s = Some g" and "g \<in> visited s"
  shows "\<exists>path. reconstruct_path s = Some (Inr (s\<lparr>shortest_path := rev path @ [g]\<rparr>))"
proof -
  from assms obtain st where st: "start_pos s = Some st" and "climbs (parents s) st g"
    unfolding run_inv_def by blast
  from reconstruct_loop_climbs [OF this(2), of "[]"] obtain path where
    "reconstruct_loop (parents s) (Some st) (Some g) [] = Some (Inr (g # path))" by auto
  with st assms(2) show ?thesis by (auto simp: reconstruct_path_def)
qed

lemma found_goal_inv:
  assumes "run_inv s" and "goal_pos s = Some g" and "g \<in> visited s"
  shows "\<exists>path p. found_goal s = Some (Inr (s\<lparr>shortest_path := path, running_bfs := False,
            path_found := True, animating_path := True, anim_index := 0, anim_progress := 0,
            render_pos := get_square_coords p\<rparr>))"
proof -
  from reconstruct_path_inv [OF assms] obtain path where
    "reconstruct_path s = Some (Inr (s\<lparr>shortest_path := rev path @ [g]\<rparr>))" by blast
  then show ?thesis
    by (cases "rev path @ [g]") (auto simp: found_goal_def)
qed


lemma found_goal_fields:
  "found_goal s = Some (Inr s') \<Longrightarrow>
     queue s' = queue s \<and> visited s' = visited s \<and> parents s' = parents s \<and>
     edges_explored s' = edges_explored s \<and> start_pos s' = start_pos s \<and>
     \<not> running_bfs s' \<and> path_found s'"
  by (auto simp: found_goal_def reconstruct_path_def split: option.splits sum.splits list.splits)

lemma fold_visit_new:
  "\<exists>new. queue (fold (visit c) ns s) = queue s @ new \<and>
         visited (fold (visit c) ns s) = visited s \<union> set new \<and>
         distinct new \<and> set new \<inter> visited s = {}"
proof (induction ns arbitrary: s)
  case Nil
  show ?case by simp
next
  case (Cons n ns)
  from Cons [of "visit c n s"] obtain new where new:
    "queue (fold (visit c) ns (visit c n s)) = queue (visit c n s) @ new"
    "visited (fold (visit c) ns (visit c n s)) = visited (visit c n s) \<union> set new"
    "distinct new" "set new \<inter> visited (visit c n s) = {}" by blast
  show ?case
  proof (cases "n \<in> visited s")
    case True
    then have "visit c n s = s" by (simp add: visit_def)
    with new have "queue (fold (visit c) (n # ns) s) = queue s @ new"
      "visited (fold (visit c) (n # ns) s) = visited s \<union> set new"
      "distinct new" "set new \<inter> visited s = {}"
      by simp_all
    then show ?thesis by blast
  next
    case False
    then have "queue (visit c n s) = queue s @ [n]" "visited (visit c n s) = insert n (visited s)"
      by (simp_all add: visit_def)
    with new False have "queue (fold (visit c) (n # ns) s) = queue s @ (n # new)"
      "visited (fold (visit c) (n # ns) s) = visited s \<union> set (n # new)"
      "distinct (n # new)" "set (n # new) \<inter> visited s = {}"
      by auto
    then show ?thesis by blast
  qed
qed

lemma step_bfs_new:
  assumes "step_bfs s = Some (Inr s')"
  shows "\<exists>new. queue s' = tl (queue s) @ new \<and> visited s' = visited s \<union> set new \<and>
           distinct new \<and> set new \<inter> visited s = {}"
proof (cases "queue s")
  case Nil
  with assms have "s' = s\<lparr>running_bfs := False\<rparr>" by (simp add: step_bfs_def)
  with Nil show ?thesis by simp
next
  case (Cons c rest)
  let ?s1 = "s\<lparr>queue := rest, current_node := Some c\<rparr>"
  from assms Cons obtain g where g: "goal_pos s = Some g"
    by (cases "goal_pos s") (auto simp: step_bfs_def)
  show ?thesis
  proof (cases "c = g")
    case True
    with assms Cons g have "found_goal ?s1 = Some (Inr s')"
      by (simp add: step_bfs_def)
    from found_goal_fields [OF this] Cons show ?thesis by simp
  next
    case False
    with assms Cons g obtain ns where "s' = fold (visit c) ns ?s1"
      by (auto simp: step_bfs_def split: option.splits)
    with fold_visit_new [of c ns ?s1] Cons show ?thesis by simp
  qed
qed

lemma step_bfs_inv:
  assumes "run_inv s" and "step_bfs s = Some (Inr s')"
  shows "run_inv s'"
proof (cases "queue s")
  case Nil
  with assms(2) have "s' = s\<lparr>running_bfs := False\<rparr>" by (simp add: step_bfs_def)
  with assms(1) show ?thesis by (simp add: run_inv_def)
next
  case (Cons c rest)
  let ?s1 = "s\<lparr>queue := rest, current_node := Some c\<rparr>"
  from assms(1) Cons have inv1: "run_inv ?s1" and cv: "c \<in> visited ?s1"
    by (auto simp: run_inv_def)
  from assms(2) Cons obtain g where g: "goal_pos s = Some g"
    by (cases "goal_pos s") (auto simp: step_bfs_def)
  show ?thesis
  proof (cases "c = g")
    case True
    with assms(2) Cons g have "found_goal ?s1 = Some (Inr s')"
      by (simp add: step_bfs_def)
    from found_goal_fields [OF this] inv1 show ?thesis by (simp add: run_inv_def)
  next
    case False
    with assms(2) Cons g obtain ns where "s' = fold (visit c) ns ?s1"
      by (auto simp: step_bfs_def split: option.splits)
    with fold_visit_inv [OF inv1 cv] show ?thesis by simp
  qed
qed

lemma reachable_inv: "reachable s \<Longrightarrow> run_inv s"
  by (induction rule: reachable.induct) (auto intro: start_bfs_inv step_bfs_inv)

lemma run_bfs_reachable: "reachable s \<Longrightarrow> run_bfs n s = Some (Inr s') \<Longrightarrow> reachable s'"
  by (induction n arbitrary: s)
     (auto split: if_splits option.splits sum.splits intro: reachable.stepped)

lemma after_reachable: "reachable s \<Longrightarrow> reachable (after n s)"
  by (auto simp: after_def split: option.splits sum.splits intro: run_bfs_reachable)

text \<open>
  Every movement rule returns: a ray in a direction other than \<open>(0, 0)\<close> leaves the
  board. So does every call of \<open>step_bfs\<close> in a run.
\<close>

lemma ray_right: "0 < dx \<Longrightarrow> \<exists>r. ray nx ny dx dy acc = Some r"
proof (induction "nat (BOARD_SIZE - nx)" arbitrary: nx ny acc rule: less_induct)
  case less
  show ?case
  proof (cases "is_on_board (Point nx ny)")
    case False
    then show ?thesis by (subst ray.simps) simp
  next
    case True
    then have "nat (BOARD_SIZE - (nx + dx)) < nat (BOARD_SIZE - nx)"
      using less.prems by (simp add: is_on_board_def)
    from less.hyps [OF this less.prems, of "ny + dy" "acc @ [Point nx ny]"] True
    show ?thesis by (subst ray.simps) simp
  qed
qed

lemma ray_left: "dx < 0 \<Longrightarrow> \<exists>r. ray nx ny dx dy acc = Some r"
proof (induction "nat (nx + 1)" arbitrary: nx ny acc rule: less_induct)
  case less
  show ?case
  proof (cases "is_on_board (Point nx ny)")
    case False
    then show ?thesis by (subst ray.simps) simp
  next
    case True
    then have "nat (nx + dx + 1) < nat (nx + 1)"
      using less.prems by (simp add: is_on_board_def)
    from less.hyps [OF this less.prems, of "ny + dy" "acc @ [Point nx ny]"] True
    show ?thesis by (subst ray.simps) simp
  qed
qed

lemma ray_down: "0 < dy \<Longrightarrow> \<exists>r. ray nx ny dx dy acc = Some r"
proof (induction "nat (BOARD_SIZE - ny)" arbitrary: nx ny acc rule: less_induct)
  case less
  show ?case
  proof (cases "is_on_board (Point nx ny)")
    case False
    then show ?thesis by (subst ray.simps) simp
  next
    case True
    then have "nat (BOARD_SIZE - (ny + dy)) < nat (BOARD_SIZE - ny)"
      using less.prems by (simp add: is_on_board_def)
    from less.hyps [OF this less.prems, of "nx + dx" "acc @ [Point nx ny]"] True
    show ?thesis by (subst ray.simps) simp
  qed
qed

lemma ray_up: "dy < 0 \<Longrightarrow> \<exists>r. ray nx ny dx dy acc = Some r"
proof (induction "nat (ny + 1)" arbitrary: nx ny acc rule: less_induct)
  case less
  show ?case
  proof (cases "is_on_board (Point nx ny)")
    case False
    then show ?thesis by (subst ray.simps) simp
  next
    case True
    then have "nat (ny + dy + 1) < nat (ny + 1)"
      using less.prems by (simp add: is_on_board_def)
    from less.hyps [OF this less.prems, of "nx + dx" "acc @ [Point nx ny]"] True
    show ?thesis by (subst ray.simps) simp
  qed
qed

lemma ray_returns: "(dx, dy) \<noteq> (0, 0) \<Longrightarrow> \<exists>r. ray nx ny dx dy acc = Some r"
  using ray_right [of dx] ray_left [of dx] ray_down [of dy] ray_up [of dy]
  by (cases "dx = 0"; cases "dy = 0") (auto simp: neq_iff)

lemma sliding_loop_returns:
  "(0, 0) \<notin> set dirs \<Longrightarrow> \<exists>r. sliding_loop p dirs acc = Some r"
proof (induction dirs arbitrary: acc)
  case Nil
  show ?case by simp
next
  case (Cons d dirs)
  obtain dx dy where d: "d = (dx, dy)" by (cases d)
  with Cons.prems have "(dx, dy) \<noteq> (0, 0)" by auto
  from ray_returns [OF this] obtain r where "ray (px p + dx) (py p + dy) dx dy acc = Some r"
    by blast
  with Cons d show ?case by auto
qed

lemma MOVE_FUNCTIONS_returns: "\<exists>neighbors. MOVE_FUNCTIONS piece p = Some neighbors"
proof (cases piece)
  case ROOK
  then show ?thesis
    using sliding_loop_returns [of "[(1, 0), (-1, 0), (0, 1), (0, -1)]" p "[]"]
    by (simp add: get_rook_moves_def sliding_moves_def del: sliding_loop.simps)
next
  case BISHOP
  then show ?thesis
    using sliding_loop_returns [of "[(1, 1), (1, -1), (-1, 1), (-1, -1)]" p "[]"]
    by (simp add: get_bishop_moves_def sliding_moves_def del: sliding_loop.simps)
next
  case QUEEN
  then show ?thesis
    using sliding_loop_returns
      [of "[(1, 0), (-1, 0), (0, 1), (0, -1), (1, 1), (1, -1), (-1, 1), (-1, -1)]" p "[]"]
    by (simp add: get_queen_moves_def sliding_moves_def del: sliding_loop.simps)
qed simp_all

lemma goal_pos_visit: "goal_pos (fold (visit c) ns s) = goal_pos s"
  by (induction ns arbitrary: s) (simp_all add: visit_def)

lemma reachable_goal: "reachable s \<Longrightarrow> goal_pos s \<noteq> None"
proof (induction rule: reachable.induct)
  case (started s st g now)
  then show ?case by (simp add: start_bfs_def)
next
  case (stepped s s')
  then show ?case
    by (auto simp: step_bfs_def found_goal_def reconstruct_path_def goal_pos_visit
        split: list.splits option.splits sum.splits if_splits)
qed

lemma step_bfs_returns:
  assumes "reachable s"
  shows "\<exists>s'. step_bfs s = Some (Inr s')"
proof (cases "queue s")
  case Nil
  then show ?thesis by (simp add: step_bfs_def)
next
  case (Cons c rest)
  from reachable_goal [OF assms] obtain g where g: "goal_pos s = Some g" by auto
  let ?s1 = "s\<lparr>queue := rest, current_node := Some c\<rparr>"
  show ?thesis
  proof (cases "c = g")
    case True
    from reachable_inv [OF assms] Cons have "run_inv ?s1" "c \<in> visited ?s1"
      by (auto simp: run_inv_def)
    from found_goal_inv [OF this(1) _ this(2)] g True obtain s' where
      "found_goal ?s1 = Some (Inr s')" by auto
    with Cons g True show ?thesis by (simp add: step_bfs_def)
  next
    case False
    from MOVE_FUNCTIONS_returns obtain ns where "MOVE_FUNCTIONS (current_piece s) c = Some ns"
      by blast
    with Cons g False show ?thesis by (simp add: step_bfs_def)
  qed
qed

section \<open>Starting a search\<close>

text \<open>
  C10: \<open>start_bfs\<close> with no start square, or no goal square, or with a search already
  running, returns with the whole state as it was: nothing is enqueued, no container is
  cleared and the running flag keeps its value.
\<close>

theorem start_bfs_noop:
  "start_pos s = None \<or> goal_pos s = None \<or> running_bfs s \<Longrightarrow> start_bfs now s = s"
  by (auto simp: start_bfs_def split: option.splits)

theorem start_bfs_noop_witness:
  "(start_pos new_visualizer = None \<or> goal_pos new_visualizer = None \<or> running_bfs new_visualizer)
   \<and> start_bfs 5 new_visualizer = new_visualizer"
  using start_bfs_noop [of new_visualizer 5] by (simp add: new_visualizer_def)

section \<open>Stepping a search\<close>

text \<open>
  C2, for the board search: in every state of a run the queue holds no square twice and
  only visited squares; a call of \<open>step_bfs\<close> returns, and it adds to \<open>visited\<close> exactly
  the squares it appends to the queue, each of them new, so a square enters \<open>visited\<close>
  once, when it is enqueued, and taking the head off the queue adds nothing. (The loop of
  the diameter tool is different: it sets \<open>Visited\<close> when a node is taken off the queue,
  and its queue can hold a node several times.)
\<close>

theorem visited_at_enqueue_queue_distinct:
  assumes "reachable s"
  shows "distinct (queue s) \<and> set (queue s) \<subseteq> visited s \<and>
         (\<exists>s'. step_bfs s = Some (Inr s')) \<and>
         (\<forall>s'. step_bfs s = Some (Inr s') \<longrightarrow>
            (\<exists>new. queue s' = tl (queue s) @ new \<and> visited s' = visited s \<union> set new \<and>
                   distinct new \<and> set new \<inter> visited s = {}))"
  using reachable_inv [OF assms] step_bfs_new [of s] step_bfs_returns [OF assms]
  by (auto simp: run_inv_def)

theorem visited_at_enqueue_queue_distinct_witness:
  "reachable (start_bfs 0 (two_clicks KNIGHT (80, 160))) \<and>
   distinct (queue (start_bfs 0 (two_clicks KNIGHT (80, 160)))) \<and>
   set (queue (start_bfs 0 (two_clicks KNIGHT (80, 160))))
     \<subseteq> visited (start_bfs 0 (two_clicks KNIGHT (80, 160))) \<and>
   (\<exists>s' new. step_bfs (start_bfs 0 (two_clicks KNIGHT (80, 160))) = Some (Inr s') \<and>
      queue s' = tl (queue (start_bfs 0 (two_clicks KNIGHT (80, 160)))) @ new \<and>
      visited s' = visited (start_bfs 0 (two_clicks KNIGHT (80, 160))) \<union> set new \<and>
      distinct new \<and>
      set new \<inter> visited (start_bfs 0 (two_clicks KNIGHT (80, 160))) = {})"
proof -
  have "start_pos (two_clicks KNIGHT (80, 160)) = Some (Point 0 0)"
    "goal_pos (two_clicks KNIGHT (80, 160)) = Some (Point 1 2)"
    "\<not> running_bfs (two_clicks KNIGHT (80, 160))"
    by code_simp+
  then have r: "reachable (start_bfs 0 (two_clicks KNIGHT (80, 160)))"
    by (rule reachable.started)
  show ?thesis
    using r visited_at_enqueue_queue_distinct [OF r] by blast
qed

text \<open>
  C3, as the code has it: \<open>step_bfs\<close> checks no state and raises no state error. On a
  stepper that is not running and whose queue is empty it returns with the state as it
  was. (With squares left in the queue, as after the goal was found, it takes the head
  and goes on like a running step; the main loop calls it only while \<open>running_bfs\<close> is
  set.)
\<close>

theorem step_bfs_idle: "\<not> running_bfs s \<Longrightarrow> queue s = [] \<Longrightarrow> step_bfs s = Some (Inr s)"
  by (simp add: step_bfs_def)

theorem step_bfs_idle_witness:
  "\<not> running_bfs new_visualizer \<and> queue new_visualizer = [] \<and>
   step_bfs new_visualizer = Some (Inr new_visualizer)"
  using step_bfs_idle [of new_visualizer] by (simp add: new_visualizer_def)

text \<open>
  After the knight's search from the corner has found the goal (1, 2), one more call of
  \<open>step_bfs\<close> returns normally, takes (4, 2) off the queue and enqueues seven squares.
\<close>

theorem step_bfs_after_goal_expands:
  "\<not> running_bfs (after 3 (start_bfs 0 (two_clicks KNIGHT (80, 160)))) \<and>
   path_found (after 3 (start_bfs 0 (two_clicks KNIGHT (80, 160)))) \<and>
   queue (after 3 (start_bfs 0 (two_clicks KNIGHT (80, 160))))
     = [Point 4 2, Point 4 0, Point 0 2, Point 3 3, Point 1 3] \<and>
   map_option (map_sum id queue) (step_bfs (after 3 (start_bfs 0 (two_clicks KNIGHT (80, 160)))))
     = Some (Inr [Point 4 0, Point 0 2, Point 3 3, Point 1 3, Point 6 3, Point 6 1,
                  Point 2 3, Point 5 4, Point 5 0, Point 3 4, Point 3 0])"
  by code_simp

text \<open>
  C8: in a run, when the head of the queue is the goal, \<open>step_bfs\<close> returns, the search
  has stopped with the path found, and the call only took the head off the queue: the
  visited set, the parent map and the log of explored edges are as before.
\<close>

theorem goal_step_no_expansion:
  assumes "reachable s" and "queue s = c # rest" and "goal_pos s = Some c"
  shows "\<exists>s'. step_bfs s = Some (Inr s') \<and> \<not> running_bfs s' \<and> path_found s' \<and>
           queue s' = rest \<and> visited s' = visited s \<and> parents s' = parents s \<and>
           edges_explored s' = edges_explored s"
proof -
  let ?s1 = "s\<lparr>queue := rest, current_node := Some c\<rparr>"
  from reachable_inv [OF assms(1)] assms(2) have "run_inv ?s1" "c \<in> visited ?s1"
    by (auto simp: run_inv_def)
  from found_goal_inv [OF this(1) _ this(2)] assms(3) obtain s' where
    fg: "found_goal ?s1 = Some (Inr s')" by auto
  with assms(2,3) have "step_bfs s = Some (Inr s')"
    by (simp add: step_bfs_def)
  with found_goal_fields [OF fg] show ?thesis by simp
qed

theorem goal_step_no_expansion_witness:
  "reachable (after 2 (start_bfs 0 (two_clicks KNIGHT (80, 160)))) \<and>
   queue (after 2 (start_bfs 0 (two_clicks KNIGHT (80, 160))))
     = Point 1 2 # [Point 4 2, Point 4 0, Point 0 2, Point 3 3, Point 1 3] \<and>
   goal_pos (after 2 (start_bfs 0 (two_clicks KNIGHT (80, 160)))) = Some (Point 1 2) \<and>
   (\<exists>s'. step_bfs (after 2 (start_bfs 0 (two_clicks KNIGHT (80, 160)))) = Some (Inr s') \<and>
      \<not> running_bfs s' \<and> path_found s' \<and>
      queue s' = [Point 4 2, Point 4 0, Point 0 2, Point 3 3, Point 1 3] \<and>
      visited s' = visited (after 2 (start_bfs 0 (two_clicks KNIGHT (80, 160)))) \<and>
      parents s' = parents (after 2 (start_bfs 0 (two_clicks KNIGHT (80, 160)))) \<and>
      edges_explored s' = edges_explored (after 2 (start_bfs 0 (two_clicks KNIGHT (80, 160)))))"
proof -
  have "start_pos (two_clicks KNIGHT (80, 160)) = Some (Point 0 0)"
    "goal_pos (two_clicks KNIGHT (80, 160)) = Some (Point 1 2)"
    "\<not> running_bfs (two_clicks KNIGHT (80, 160))"
    by code_simp+
  then have "reachable (start_bfs 0 (two_clicks KNIGHT (80, 160)))"
    by (rule reachable.started)
  then have r: "reachable (after 2 (start_bfs 0 (two_clicks KNIGHT (80, 160))))"
    by (rule after_reachable)
  have q: "queue (after 2 (start_bfs 0 (two_clicks KNIGHT (80, 160))))
             = Point 1 2 # [Point 4 2, Point 4 0, Point 0 2, Point 3 3, Point 1 3]"
    by code_simp
  have g: "goal_pos (after 2 (start_bfs 0 (two_clicks KNIGHT (80, 160)))) = Some (Point 1 2)"
    by code_simp
  show ?thesis
    using r q g goal_step_no_expansion [OF r q g] by blast
qed

section \<open>Reconstructing the path\<close>

text \<open>
  C4, as the code has it: \<open>reconstruct_path\<close> raises no error for a goal that is not a
  key of the parent map. With a start square set it returns, and the path it stores is
  the goal alone.
\<close>

theorem reconstruct_path_unknown_goal:
  assumes "start_pos s = Some st" and "goal_pos s = Some g" and "g \<notin> dom (parents s)"
  shows "reconstruct_path s = Some (Inr (s\<lparr>shortest_path := [g]\<rparr>))"
proof -
  from assms(3) have "dict_get (parents s) g = None" by (auto simp: dict_get_def domIff)
  then have "reconstruct_loop (parents s) (Some st) (Some g) [] = Some (Inr [g])"
    by (subst reconstruct_loop.simps, simp, subst reconstruct_loop.simps) simp
  with assms(1,2) show ?thesis by (simp add: reconstruct_path_def)
qed

theorem reconstruct_path_unknown_goal_witness:
  "start_pos (two_clicks BISHOP (0, 80)) = Some (Point 0 0) \<and>
   goal_pos (two_clicks BISHOP (0, 80)) = Some (Point 0 1) \<and>
   Point 0 1 \<notin> dom (parents (two_clicks BISHOP (0, 80))) \<and>
   reconstruct_path (two_clicks BISHOP (0, 80))
     = Some (Inr ((two_clicks BISHOP (0, 80))\<lparr>shortest_path := [Point 0 1]\<rparr>))"
proof -
  have a: "start_pos (two_clicks BISHOP (0, 80)) = Some (Point 0 0)"
    and b: "goal_pos (two_clicks BISHOP (0, 80)) = Some (Point 0 1)"
    and "parents (two_clicks BISHOP (0, 80)) (Point 0 1) = None"
    by code_simp+
  then have c: "Point 0 1 \<notin> dom (parents (two_clicks BISHOP (0, 80)))"
    by (simp add: domIff)
  show ?thesis
    using a b c reconstruct_path_unknown_goal [OF a b c] by blast
qed

text \<open>
  The bishop's search from the corner for the square (0, 1), of the other colour, ends
  after 33 calls with the queue empty and (0, 1) not a key of the parent map;
  \<open>reconstruct_path\<close> on that state returns the one-square path.
\<close>

theorem reconstruct_path_unreached_returns:
  "\<not> running_bfs (after 33 (start_bfs 0 (two_clicks BISHOP (0, 80)))) \<and>
   queue (after 33 (start_bfs 0 (two_clicks BISHOP (0, 80)))) = [] \<and>
   goal_pos (after 33 (start_bfs 0 (two_clicks BISHOP (0, 80)))) = Some (Point 0 1) \<and>
   parents (after 33 (start_bfs 0 (two_clicks BISHOP (0, 80)))) (Point 0 1) = None \<and>
   map_option (map_sum id shortest_path)
       (reconstruct_path (after 33 (start_bfs 0 (two_clicks BISHOP (0, 80)))))
     = Some (Inr [Point 0 1])"
  by code_simp

text \<open>
  C7: the knight's search from (0, 0) for (1, 2) stops after three calls of \<open>step_bfs\<close>
  with the two-square path, and the one for (0, 1) after 28 calls with a path of four
  squares. (1, 2) is one knight move from the corner; (0, 1) is neither one nor two moves
  from it, so one and three are the least numbers of moves.
\<close>

theorem knight_paths:
  "map_option (map_sum id shortest_path) (run_bfs 3 (start_bfs 0 (two_clicks KNIGHT (80, 160))))
     = Some (Inr [Point 0 0, Point 1 2]) \<and>
   map_option (map_sum id (length \<circ> shortest_path))
       (run_bfs 3 (start_bfs 0 (two_clicks KNIGHT (80, 160)))) = Some (Inr 2) \<and>
   map_option (map_sum id running_bfs) (run_bfs 3 (start_bfs 0 (two_clicks KNIGHT (80, 160))))
     = Some (Inr False) \<and>
   map_option (map_sum id shortest_path) (run_bfs 28 (start_bfs 0 (two_clicks KNIGHT (0, 80))))
     = Some (Inr [Point 0 0, Point 2 1, Point 1 3, Point 0 1]) \<and>
   map_option (map_sum id (length \<circ> shortest_path))
       (run_bfs 28 (start_bfs 0 (two_clicks KNIGHT (0, 80)))) = Some (Inr 4) \<and>
   map_option (map_sum id running_bfs) (run_bfs 28 (start_bfs 0 (two_clicks KNIGHT (0, 80))))
     = Some (Inr False) \<and>
   Point 1 2 \<in> set (get_knight_moves (Point 0 0)) \<and>
   Point 0 1 \<notin> set (get_knight_moves (Point 0 0)) \<and>
   Point 0 1 \<notin> set (concat (map get_knight_moves (get_knight_moves (Point 0 0))))"
  by code_simp

section \<open>The diameter tool: search\<close>





text \<open>
  The loop of the diameter tool on the same path, searched from the middle node: after
  one iteration the end nodes 0 and 2 are in the queue and 0 is not marked \<open>Visited\<close>;
  after three iterations the queue holds node 1 twice.
\<close>

theorem diameter_bfs_queue_repeats:
  "fst (snd (bfs_iterations 1 1 path_graph [1] 1)) = [0, 2] \<and>
   Visited (heap (fst (bfs_iterations 1 1 path_graph [1] 1)) 0) = False \<and>
   fst (snd (bfs_iterations 3 1 path_graph [1] 1)) = [1, 1] \<and>
   \<not> distinct (fst (snd (bfs_iterations 3 1 path_graph [1] 1)))"
  by code_simp

section \<open>The diameter tool: termination\<close>

lemma bfs_loop_Nil: "bfs_loop start w [] far = Some (w, far)"
  by (subst bfs_loop.simps) simp

lemma bfs_loop_Cons:
  "bfs_loop start w (c # rest) far =
     (case bfs_body start w c rest far of (w', q', far') \<Rightarrow> bfs_loop start w' q' far')"
  by (subst bfs_loop.simps) simp

lemma fold_visit_neighbour_shape:
  "\<exists>h' far'. fold (visit_neighbour start c) ns (h, q, far) = (h', q @ ns, far') \<and>
     (\<forall>m. Visited (h' m) = Visited (h m) \<and> Neighbours (h' m) = Neighbours (h m))"
proof (induction ns arbitrary: h q far)
  case Nil
  show ?case by simp
next
  case (Cons n ns)
  obtain h1 far1 where v: "visit_neighbour start c n (h, q, far) = (h1, q @ [n], far1)"
    and k: "\<forall>m. Visited (h1 m) = Visited (h m) \<and> Neighbours (h1 m) = Neighbours (h m)"
    by (cases "Distance (h n) = 0 \<and> n \<noteq> start") auto
  from Cons [of h1 "q @ [n]" far1] obtain h' far' where
    "fold (visit_neighbour start c) ns (h1, q @ [n], far1) = (h', (q @ [n]) @ ns, far')"
    "\<forall>m. Visited (h' m) = Visited (h1 m) \<and> Neighbours (h' m) = Neighbours (h1 m)"
    by blast
  moreover have "fold (visit_neighbour start c) (n # ns) (h, q, far)
      = fold (visit_neighbour start c) ns (h1, q @ [n], far1)"
    by (simp only: fold_simps comp_apply v)
  ultimately show ?case using k by simp
qed

lemma bfs_body_visited: "Visited (heap w c) \<Longrightarrow> bfs_body start w c rest far = (w, rest, far)"
  by (simp add: bfs_body_def)

lemma bfs_body_expand:
  assumes "\<not> Visited (heap w c)"
  shows "\<exists>w' far'. bfs_body start w c rest far = (w', rest @ Neighbours (heap w c), far') \<and>
     nodes w' = nodes w \<and>
     (\<forall>m. Visited (heap w' m) = (m = c \<or> Visited (heap w m)) \<and>
          Neighbours (heap w' m) = Neighbours (heap w m))"
proof -
  from fold_visit_neighbour_shape [of start c "Neighbours (heap w c)" "heap w" "c # rest" far]
  obtain h' far' where
    "fold (visit_neighbour start c) (Neighbours (heap w c)) (heap w, c # rest, far)
       = (h', (c # rest) @ Neighbours (heap w c), far')"
    "\<forall>m. Visited (h' m) = Visited (heap w m) \<and> Neighbours (h' m) = Neighbours (heap w m)"
    by blast
  with assms show ?thesis by (simp add: bfs_body_def)
qed

lemma bfs_loop_returns:
  assumes "finite V"
  shows "(\<forall>n\<in>V. set (Neighbours (heap w n)) \<subseteq> V) \<Longrightarrow> set q \<subseteq> V \<Longrightarrow>
         \<exists>r. bfs_loop start w q far = Some r"
proof (induction "card {n \<in> V. \<not> Visited (heap w n)}" arbitrary: w q far rule: less_induct)
  case less
  from less.prems(2) show ?case
  proof (induction q arbitrary: far)
    case Nil
    show ?case by (simp add: bfs_loop_Nil)
  next
    case (Cons c rest)
    show ?case
    proof (cases "Visited (heap w c)")
      case True
      with Cons show ?thesis by (simp add: bfs_loop_Cons bfs_body_visited)
    next
      case False
      from bfs_body_expand [OF False, of start rest far] obtain w' far' where
        b: "bfs_body start w c rest far = (w', rest @ Neighbours (heap w c), far')"
        and f: "\<forall>m. Visited (heap w' m) = (m = c \<or> Visited (heap w m)) \<and>
                   Neighbours (heap w' m) = Neighbours (heap w m)"
        by blast
      from Cons.prems have cV: "c \<in> V" by simp
      have "{n \<in> V. \<not> Visited (heap w' n)} \<subset> {n \<in> V. \<not> Visited (heap w n)}"
        using f False cV by auto
      with assms have "card {n \<in> V. \<not> Visited (heap w' n)} < card {n \<in> V. \<not> Visited (heap w n)}"
        by (intro psubset_card_mono) auto
      moreover have "\<forall>n\<in>V. set (Neighbours (heap w' n)) \<subseteq> V" using f less.prems(1) by simp
      moreover have "set (rest @ Neighbours (heap w c)) \<subseteq> V"
        using Cons.prems less.prems(1) cV by auto
      ultimately have "\<exists>r. bfs_loop start w' (rest @ Neighbours (heap w c)) far' = Some r"
        by (rule less.hyps)
      with b show ?thesis by (simp add: bfs_loop_Cons)
    qed
  qed
qed

text \<open>
  C9: over a finite set of nodes that holds the start node and the neighbours of each of
  its nodes, the loop of \<open>bfs\<close> returns, whatever the flags and distances it starts
  from: an iteration either marks one more node of the set \<open>Visited\<close> or only shortens
  the queue.
\<close>

theorem bfs_terminates:
  assumes "finite V" and "start \<in> V" and "\<forall>n\<in>V. set (Neighbours (heap w n)) \<subseteq> V"
  shows "\<exists>w' far_node. bfs w start = Some (w', far_node)"
  using bfs_loop_returns [OF assms(1,3), of "[start]" start start] assms(2)
  by (auto simp: bfs_def)

theorem bfs_terminates_witness:
  "finite {0, 1, 2::nat} \<and> (1::nat) \<in> {0, 1, 2} \<and>
   set (Neighbours (heap path_graph 0)) \<subseteq> {0, 1, 2} \<and>
   set (Neighbours (heap path_graph 1)) \<subseteq> {0, 1, 2} \<and>
   set (Neighbours (heap path_graph 2)) \<subseteq> {0, 1, 2} \<and>
   (\<exists>w' far_node. bfs path_graph 1 = Some (w', far_node))"
proof -
  have a: "finite {0, 1, 2::nat}" by simp
  have b: "(1::nat) \<in> {0, 1, 2}" by simp
  have n: "set (Neighbours (heap path_graph 0)) \<subseteq> {0, 1, 2}"
    "set (Neighbours (heap path_graph 1)) \<subseteq> {0, 1, 2}"
    "set (Neighbours (heap path_graph 2)) \<subseteq> {0, 1, 2}"
    by code_simp+
  then have c: "\<forall>n\<in>{0, 1, 2}. set (Neighbours (heap path_graph n)) \<subseteq> {0, 1, 2}" by simp
  show ?thesis
    using a b n bfs_terminates [OF a b c] by blast
qed

section \<open>The diameter tool: the star\<close>

lemma star_ready_facts:
  assumes "star_ready h c l1 l2 l3 l4"
  shows "c \<noteq> l1" "c \<noteq> l2" "c \<noteq> l3" "c \<noteq> l4" "l1 \<noteq> c" "l2 \<noteq> c" "l3 \<noteq> c" "l4 \<noteq> c"
    "l1 \<noteq> l2" "l1 \<noteq> l3" "l1 \<noteq> l4" "l2 \<noteq> l1" "l3 \<noteq> l1" "l4 \<noteq> l1"
    "l2 \<noteq> l3" "l2 \<noteq> l4" "l3 \<noteq> l2" "l4 \<noteq> l2" "l3 \<noteq> l4" "l4 \<noteq> l3"
    "Neighbours (h c) = [l1, l2, l3, l4]"
    "Neighbours (h l1) = [c]" "Neighbours (h l2) = [c]" "Neighbours (h l3) = [c]"
    "Neighbours (h l4) = [c]"
    "\<not> Visited (h c)" "\<not> Visited (h l1)" "\<not> Visited (h l2)" "\<not> Visited (h l3)" "\<not> Visited (h l4)"
    "Distance (h c) = 0" "Distance (h l1) = 0" "Distance (h l2) = 0" "Distance (h l3) = 0"
    "Distance (h l4) = 0"
  using assms unfolding star_ready_def by auto

lemma star_bfs_centre:
  assumes "star_ready (heap w) c l1 l2 l3 l4"
  shows "\<exists>w'. bfs w c = Some (w', l1) \<and> nodes w' = nodes w \<and>
           (\<forall>n. Neighbours (heap w' n) = Neighbours (heap w n))"
  unfolding bfs_def
  by (simp add: bfs_loop_Nil bfs_loop_Cons bfs_body_def star_ready_facts [OF assms])

lemma star_bfs_leaf1:
  assumes "star_ready (heap w) c l1 l2 l3 l4"
  shows "\<exists>w'. bfs w l1 = Some (w', l2) \<and> nodes w' = nodes w \<and> Distance (heap w' l2) = 2 \<and>
           (\<forall>n. Neighbours (heap w' n) = Neighbours (heap w n))"
  unfolding bfs_def
  by (simp add: bfs_loop_Nil bfs_loop_Cons bfs_body_def star_ready_facts [OF assms])

lemma star_bfs_leaf2:
  assumes "star_ready (heap w) c l1 l2 l3 l4"
  shows "\<exists>w'. bfs w l2 = Some (w', l1) \<and> nodes w' = nodes w \<and> Distance (heap w' l1) = 2 \<and>
           (\<forall>n. Neighbours (heap w' n) = Neighbours (heap w n))"
  unfolding bfs_def
  by (simp add: bfs_loop_Nil bfs_loop_Cons bfs_body_def star_ready_facts [OF assms])

lemma star_bfs_leaf3:
  assumes "star_ready (heap w) c l1 l2 l3 l4"
  shows "\<exists>w'. bfs w l3 = Some (w', l1) \<and> nodes w' = nodes w \<and> Distance (heap w' l1) = 2 \<and>
           (\<forall>n. Neighbours (heap w' n) = Neighbours (heap w n))"
  unfolding bfs_def
  by (simp add: bfs_loop_Nil bfs_loop_Cons bfs_body_def star_ready_facts [OF assms])

lemma star_bfs_leaf4:
  assumes "star_ready (heap w) c l1 l2 l3 l4"
  shows "\<exists>w'. bfs w l4 = Some (w', l1) \<and> nodes w' = nodes w \<and> Distance (heap w' l1) = 2 \<and>
           (\<forall>n. Neighbours (heap w' n) = Neighbours (heap w n))"
  unfolding bfs_def
  by (simp add: bfs_loop_Nil bfs_loop_Cons bfs_body_def star_ready_facts [OF assms])

lemma fold_reset_node:
  "Neighbours (fold reset_node ns h n) = Neighbours (h n) \<and>
   (n \<in> set ns \<longrightarrow> \<not> Visited (fold reset_node ns h n) \<and> Distance (fold reset_node ns h n) = 0)"
  by (induction ns rule: rev_induct) (auto simp: reset_node_def)

lemma reset_nodes_ready:
  assumes "star_shape w c l1 l2 l3 l4 ns"
  shows "star_ready (heap (w\<lparr>heap := fold reset_node ns (heap w)\<rparr>)) c l1 l2 l3 l4"
  using assms fold_reset_node [of ns "heap w"]
  unfolding star_shape_def star_ready_def by simp

lemma star_shape_kept:
  assumes "star_shape w c l1 l2 l3 l4 ns"
    and "nodes w' = nodes (w\<lparr>heap := fold reset_node ns (heap w)\<rparr>)"
    and "\<forall>n. Neighbours (heap w' n)
           = Neighbours (heap (w\<lparr>heap := fold reset_node ns (heap w)\<rparr>) n)"
  shows "star_shape w' c l1 l2 l3 l4 ns"
  using assms fold_reset_node [of ns "heap w"]
  unfolding star_shape_def by simp

lemma find_diameter_lists:
  assumes "nodes w = PyList ns"
    and "bfs (w\<lparr>heap := fold reset_node ns (heap w)\<rparr>) sel = Some (w1, a)"
    and "nodes w1 = PyList ns"
    and "bfs (w1\<lparr>heap := fold reset_node ns (heap w1)\<rparr>) a = Some (w2, b)"
  shows "find_diameter w sel = Some (Inr (w2, a, b))"
  using assms by (simp add: find_diameter_def)

text \<open>
  With a list of the five nodes of a star in the place of the alias, the two passes of
  \<open>find_diameter\<close> from any of them return two different leaves, the second at distance
  2. The leaves are named in the order of the centre's neighbour list.
\<close>

lemma star_two_passes:
  assumes "distinct [c, l1, l2, l3, l4]" and "Neighbours (heap w c) = [l1, l2, l3, l4]"
    and "\<forall>l \<in> {l1, l2, l3, l4}. Neighbours (heap w l) = [c]"
    and "nodes w = PyList ns" and "set ns = {c, l1, l2, l3, l4}" and "seed \<in> set ns"
  shows "\<exists>w' a b. find_diameter w seed = Some (Inr (w', a, b)) \<and> a \<in> {l1, l2, l3, l4} \<and>
           b \<in> {l1, l2, l3, l4} \<and> a \<noteq> b \<and> Distance (heap w' b) = 2"
proof -
  from assms(1-5) have sh: "star_shape w c l1 l2 l3 l4 ns" by (simp add: star_shape_def)
  note r0 = reset_nodes_ready [OF sh]
  from assms(1) have ne: "l1 \<noteq> l2" "l2 \<noteq> l1" by auto
  have second: "\<exists>w2. bfs (w1\<lparr>heap := fold reset_node ns (heap w1)\<rparr>) l1 = Some (w2, l2) \<and>
                     Distance (heap w2 l2) = 2 \<and> nodes w1 = PyList ns"
    if "nodes w1 = nodes (w\<lparr>heap := fold reset_node ns (heap w)\<rparr>)"
      and "\<forall>n. Neighbours (heap w1 n)
             = Neighbours (heap (w\<lparr>heap := fold reset_node ns (heap w)\<rparr>) n)"
    for w1
    using star_bfs_leaf1 [OF reset_nodes_ready [OF star_shape_kept [OF sh that]]] that(1) assms(4)
    by auto
  from assms(5,6) consider "seed = c" | "seed = l1" | "seed = l2" | "seed = l3" | "seed = l4"
    by auto
  then show ?thesis
  proof cases
    case 1
    from star_bfs_centre [OF r0] obtain w1 where
      b1: "bfs (w\<lparr>heap := fold reset_node ns (heap w)\<rparr>) c = Some (w1, l1)"
      and k: "nodes w1 = nodes (w\<lparr>heap := fold reset_node ns (heap w)\<rparr>)"
        "\<forall>n. Neighbours (heap w1 n)
           = Neighbours (heap (w\<lparr>heap := fold reset_node ns (heap w)\<rparr>) n)"
      by blast
    from second [OF k] obtain w2 where
      "bfs (w1\<lparr>heap := fold reset_node ns (heap w1)\<rparr>) l1 = Some (w2, l2)"
      "Distance (heap w2 l2) = 2" "nodes w1 = PyList ns" by blast
    with find_diameter_lists [OF assms(4) b1] 1 ne show ?thesis by auto
  next
    case 2
    from star_bfs_leaf1 [OF r0] obtain w1 where
      b1: "bfs (w\<lparr>heap := fold reset_node ns (heap w)\<rparr>) l1 = Some (w1, l2)"
      and k: "nodes w1 = nodes (w\<lparr>heap := fold reset_node ns (heap w)\<rparr>)"
        "\<forall>n. Neighbours (heap w1 n)
           = Neighbours (heap (w\<lparr>heap := fold reset_node ns (heap w)\<rparr>) n)"
      by blast
    from star_bfs_leaf2 [OF reset_nodes_ready [OF star_shape_kept [OF sh k]]] obtain w2 where
      "bfs (w1\<lparr>heap := fold reset_node ns (heap w1)\<rparr>) l2 = Some (w2, l1)"
      "Distance (heap w2 l1) = 2" by blast
    moreover from k(1) assms(4) have "nodes w1 = PyList ns" by simp
    ultimately show ?thesis
      using find_diameter_lists [OF assms(4) b1] 2 ne by auto
  next
    case 3
    from star_bfs_leaf2 [OF r0] obtain w1 where
      b1: "bfs (w\<lparr>heap := fold reset_node ns (heap w)\<rparr>) l2 = Some (w1, l1)"
      and k: "nodes w1 = nodes (w\<lparr>heap := fold reset_node ns (heap w)\<rparr>)"
        "\<forall>n. Neighbours (heap w1 n)
           = Neighbours (heap (w\<lparr>heap := fold reset_node ns (heap w)\<rparr>) n)"
      by blast
    from second [OF k] obtain w2 where
      "bfs (w1\<lparr>heap := fold reset_node ns (heap w1)\<rparr>) l1 = Some (w2, l2)"
      "Distance (heap w2 l2) = 2" "nodes w1 = PyList ns" by blast
    with find_diameter_lists [OF assms(4) b1] 3 ne show ?thesis by auto
  next
    case 4
    from star_bfs_leaf3 [OF r0] obtain w1 where
      b1: "bfs (w\<lparr>heap := fold reset_node ns (heap w)\<rparr>) l3 = Some (w1, l1)"
      and k: "nodes w1 = nodes (w\<lparr>heap := fold reset_node ns (heap w)\<rparr>)"
        "\<forall>n. Neighbours (heap w1 n)
           = Neighbours (heap (w\<lparr>heap := fold reset_node ns (heap w)\<rparr>) n)"
      by blast
    from second [OF k] obtain w2 where
      "bfs (w1\<lparr>heap := fold reset_node ns (heap w1)\<rparr>) l1 = Some (w2, l2)"
      "Distance (heap w2 l2) = 2" "nodes w1 = PyList ns" by blast
    with find_diameter_lists [OF assms(4) b1] 4 ne show ?thesis by auto
  next
    case 5
    from star_bfs_leaf4 [OF r0] obtain w1 where
      b1: "bfs (w\<lparr>heap := fold reset_node ns (heap w)\<rparr>) l4 = Some (w1, l1)"
      and k: "nodes w1 = nodes (w\<lparr>heap := fold reset_node ns (heap w)\<rparr>)"
        "\<forall>n. Neighbours (heap w1 n)
           = Neighbours (heap (w\<lparr>heap := fold reset_node ns (heap w)\<rparr>) n)"
      by blast
    from second [OF k] obtain w2 where
      "bfs (w1\<lparr>heap := fold reset_node ns (heap w1)\<rparr>) l1 = Some (w2, l2)"
      "Distance (heap w2 l2) = 2" "nodes w1 = PyList ns" by blast
    with find_diameter_lists [OF assms(4) b1] 5 ne show ?thesis by auto
  qed
qed

lemma find_diameter_alias: "nodes w = ListAlias \<Longrightarrow> find_diameter w seed = Some (Inl AttributeError)"
  by (simp add: find_diameter_def)

text \<open>
  C6, on the code: \<open>find_diameter\<close> does not return on the star. Its first statement,
  \<open>reset_nodes(nodes)\<close>, iterates the object that line 45 binds to \<open>nodes\<close> and raises
  \<open>AttributeError\<close>, from every seed, before any search is made.
\<close>

theorem find_diameter_star_raises:
  "find_diameter star_graph 0 = Some (Inl AttributeError) \<and>
   find_diameter star_graph 1 = Some (Inl AttributeError) \<and>
   find_diameter star_graph 2 = Some (Inl AttributeError) \<and>
   find_diameter star_graph 3 = Some (Inl AttributeError) \<and>
   find_diameter star_graph 4 = Some (Inl AttributeError) \<and>
   Neighbours (heap star_graph 0) = [1, 2, 3, 4] \<and>
   map (\<lambda>l. Neighbours (heap star_graph l)) [1, 2, 3, 4] = [[0], [0], [0], [0]]"
  by (simp add: find_diameter_alias star_graph_def wired_def Node_init_def)

section \<open>The diameter tool: editing\<close>

text \<open>
  When the delete key returns, no edge that touches the selected node is left; the heap,
  and with it every \<open>Neighbours\<close> list, is as it was.
\<close>

lemma fold_drop_edge_mset:
  "mset (fold (drop_edge n) xs es) = mset es - mset (filter (\<lambda>e. other_end e n \<noteq> None) xs)"
proof (induction xs arbitrary: es)
  case Nil
  show ?case by simp
next
  case (Cons x xs)
  show ?case
  proof (cases "other_end x n = None")
    case True
    then have "drop_edge n x es = es" by (simp add: drop_edge_def)
    with Cons [of es] True show ?thesis by simp
  next
    case False
    then have "drop_edge n x es = remove1 x es" by (simp add: drop_edge_def)
    with Cons [of "remove1 x es"] False show ?thesis by simp
  qed
qed

lemma delete_key_edges:
  assumes "delete_key w = Inr w'" and "selected_node w = Some n"
    and "edges w' = PyList es'" and "e \<in> set es'"
  shows "edge_start e \<noteq> n \<and> edge_end e \<noteq> n"
proof -
  from assms(1,2,3) obtain es where "es' = fold (drop_edge n) es es"
    by (auto simp: delete_key_def split: listobj.splits if_splits)
  then have "mset es' = mset (filter (\<lambda>e. other_end e n = None) es)"
    by (auto simp: fold_drop_edge_mset multiset_eq_iff)
  then have "set es' = set (filter (\<lambda>e. other_end e n = None) es)"
    by (rule mset_eq_setD)
  with assms(4) show ?thesis by (auto simp: other_end_def split: if_splits)
qed

lemma delete_key_heap: "delete_key w = Inr w' \<Longrightarrow> heap w' = heap w"
  by (auto simp: delete_key_def split: option.splits listobj.splits if_splits)

lemma main_raises: "main (evs # batches) = Some (Inl AttributeError)"
  by (simp add: main_def module_start_def draw_def)

text \<open>
  Started with empty lists instead, the loop handles the same events, and after the delete
  key node 1 is the one node left, no edge is left, and node 1 still lists node 0.
\<close>

lemma delete_key_with_lists:
  "map_option (map_sum id nodes)
      (main_loop [[LEFT_DOWN (100, 100)], [LEFT_DOWN (200, 100)], [RIGHT_DOWN (100, 100)],
                  [RIGHT_DOWN (200, 100)], [RIGHT_DOWN (100, 100)], [DELETE_DOWN]] lists_start)
     = Some (Inr (PyList [1])) \<and>
   map_option (map_sum id edges)
      (main_loop [[LEFT_DOWN (100, 100)], [LEFT_DOWN (200, 100)], [RIGHT_DOWN (100, 100)],
                  [RIGHT_DOWN (200, 100)], [RIGHT_DOWN (100, 100)], [DELETE_DOWN]] lists_start)
     = Some (Inr (PyList [])) \<and>
   map_option (map_sum id (\<lambda>w. Neighbours (heap w 1)))
      (main_loop [[LEFT_DOWN (100, 100)], [LEFT_DOWN (200, 100)], [RIGHT_DOWN (100, 100)],
                  [RIGHT_DOWN (200, 100)], [RIGHT_DOWN (100, 100)], [DELETE_DOWN]] lists_start)
     = Some (Inr [0])"
  by code_simp

text \<open>
  C1, on the code: no node is ever removed. Whatever the user does, here two nodes placed,
  joined and the first one selected and deleted, \<open>main\<close> raises \<open>AttributeError\<close> in its
  first call of \<open>draw\<close>, which iterates the object that line 46 binds to \<open>edges\<close>. The
  delete branch itself, entered with node 0 of two joined nodes selected, raises
  \<open>TypeError\<close> at \<open>edges.copy()\<close>, and node 1 goes on listing node 0.
\<close>

theorem delete_key_never_removes:
  "main [[LEFT_DOWN (100, 100)], [LEFT_DOWN (200, 100)], [RIGHT_DOWN (100, 100)],
         [RIGHT_DOWN (200, 100)], [RIGHT_DOWN (100, 100)], [DELETE_DOWN]]
     = Some (Inl AttributeError) \<and>
   draw module_start = Inl AttributeError \<and>
   delete_key (pair_graph\<lparr>selected_node := Some 0\<rparr>) = Inl TypeError \<and>
   Neighbours (heap pair_graph 1) = [0]"
  by (simp add: main_def module_start_def draw_def delete_key_def pair_graph_def wired_def
      Node_init_def)

end
